theory Spec2Isabelle
  imports Complex_Main
begin

section \<open>JavaScript values and the object store\<close>

text \<open>
  The harness handles decoded JSON bodies.  A JavaScript value is a primitive or a
  reference to an object or array of the store; two references are the same value exactly
  when they hold the same address, which is how \<open>===\<close>, \<open>Object.is\<close> and
  \<open>Array.prototype.includes\<close> compare objects.  Strings are byte strings (UTF-8).
  Numbers are the IEEE doubles, read as their mathematical value: a finite number (a
  rational, \<open>Finite 0\<close> being \<open>+0\<close>), the negative zero, the two infinities and NaN.
\<close>

type_synonym addr = nat

datatype jsnum = Finite rat | NegZero | PosInf | NegInf | NaN

datatype jsval = Undefined | Null | Bool bool | Num jsnum | Str string | Ref addr

datatype jsobj = Obj "(string \<times> jsval) list" | Arr "jsval list"

type_synonym heap = "jsobj list"

text \<open>What a failing evaluation throws: a TypeError, an Error with its message (a failed
  expectation is one), and the exception by which \<open>test.skip()\<close> leaves a test.\<close>

datatype exn = TypeError | Error string | SkipError

text \<open>\<open>ToBoolean\<close>: the falsy values are undefined, null, false, the zeros, NaN and the
  empty string.\<close>

fun truthy :: "jsval \<Rightarrow> bool" where
  "truthy Undefined = False"
| "truthy Null = False"
| "truthy (Bool b) = b"
| "truthy (Num n) = (n \<noteq> Finite 0 \<and> n \<noteq> NegZero \<and> n \<noteq> NaN)"
| "truthy (Str s) = (s \<noteq> [])"
| "truthy (Ref a) = True"

text \<open>\<open>SameValueZero\<close>, the comparison of \<open>includes\<close>: equality of values, with the
  two zeros identified (NaN equals itself).\<close>

definition is_zero :: "jsnum \<Rightarrow> bool" where
  "is_zero n = (n = Finite 0 \<or> n = NegZero)"

fun same_value_zero :: "jsval \<Rightarrow> jsval \<Rightarrow> bool" where
  "same_value_zero (Num a) (Num b) = (a = b \<or> (is_zero a \<and> is_zero b))"
| "same_value_zero x y = (x = y)"

definition array_includes :: "jsval list \<Rightarrow> jsval \<Rightarrow> bool" where
  "array_includes xs x = list_ex (\<lambda>y. same_value_zero y x) xs"

text \<open>\<open>typeof v === "object"\<close>: null, objects and arrays (decoded JSON holds no function).\<close>

fun typeof_object :: "jsval \<Rightarrow> bool" where
  "typeof_object Null = True"
| "typeof_object (Ref a) = True"
| "typeof_object v = False"

definition heap_at :: "heap \<Rightarrow> addr \<Rightarrow> jsobj option" where
  "heap_at h a = (if a < length h then Some (h ! a) else None)"

text \<open>A new object or array literal takes the next free address.\<close>

definition alloc :: "heap \<Rightarrow> jsobj \<Rightarrow> addr \<times> heap" where
  "alloc h ob = (length h, h @ [ob])"

text \<open>
  Reading a property \<open>v.k\<close> for one of the keys the harness reads (\<open>data\<close>, \<open>group\<close>,
  \<open>_id\<close>, \<open>code\<close>, \<open>status\<close>, ...): a TypeError on undefined and null; the own property
  of an object, undefined when it has none; undefined on an array and on every other
  primitive, whose prototypes define none of these keys.
\<close>

fun get_prop :: "heap \<Rightarrow> jsval \<Rightarrow> string \<Rightarrow> exn + jsval" where
  "get_prop h Undefined k = Inl TypeError"
| "get_prop h Null k = Inl TypeError"
| "get_prop h (Ref a) k =
     (case heap_at h a of
        Some (Obj fs) \<Rightarrow> Inr (case map_of fs k of Some v \<Rightarrow> v | None \<Rightarrow> Undefined)
      | _ \<Rightarrow> Inr Undefined)"
| "get_prop h v k = Inr Undefined"

fun isArray :: "heap \<Rightarrow> jsval \<Rightarrow> bool" where
  "isArray h (Ref a) = (case heap_at h a of Some (Arr xs) \<Rightarrow> True | _ \<Rightarrow> False)"
| "isArray h v = False"

text \<open>The elements of an array of the store (the empty list for anything else).\<close>

fun array_elems :: "heap \<Rightarrow> jsval \<Rightarrow> jsval list" where
  "array_elems h (Ref a) = (case heap_at h a of Some (Arr xs) \<Rightarrow> xs | _ \<Rightarrow> [])"
| "array_elems h v = []"

text \<open>\<open>arr.push(x)\<close> on the array at an address.\<close>

definition push :: "heap \<Rightarrow> addr \<Rightarrow> jsval \<Rightarrow> heap" where
  "push h a x = (case heap_at h a of Some (Arr xs) \<Rightarrow> h[a := Arr (xs @ [x])] | _ \<Rightarrow> h)"

text \<open>
  A store has no dangling reference: every reference held by an object or array of the
  store, and every value handed to the harness, points into the store.
\<close>

fun refs_below :: "nat \<Rightarrow> jsval \<Rightarrow> bool" where
  "refs_below n (Ref a) = (a < n)"
| "refs_below n v = True"

fun obj_below :: "nat \<Rightarrow> jsobj \<Rightarrow> bool" where
  "obj_below n (Obj fs) = list_all (\<lambda>kv. refs_below n (snd kv)) fs"
| "obj_below n (Arr xs) = list_all (refs_below n) xs"

definition heap_ok :: "heap \<Rightarrow> bool" where
  "heap_ok h = list_all (obj_below (length h)) h"

section \<open>The Test Data Manager (test/utils/test-data-manager.js)\<close>

text \<open>The three fields of a manager hold references to arrays of the store.\<close>

record TestDataManager =
  groupIds :: addr
  couponCodes :: addr
  coupons :: addr

text \<open>The constructor and \<open>clear()\<close>: three new empty arrays.\<close>

definition new_arrays :: "heap \<Rightarrow> TestDataManager \<times> heap" where
  "new_arrays h =
     (let (g, h1) = alloc h (Arr []);
          (c, h2) = alloc h1 (Arr []);
          (k, h3) = alloc h2 (Arr [])
      in (\<lparr>groupIds = g, couponCodes = c, coupons = k\<rparr>, h3))"

definition constructor :: "heap \<Rightarrow> TestDataManager \<times> heap" where
  "constructor h = new_arrays h"

definition clear :: "heap \<Rightarrow> TestDataManager \<Rightarrow> TestDataManager \<times> heap" where
  "clear h this = new_arrays h"

text \<open>
  The group identifier of a truthy \<open>coupon.group\<close>:
  \<^verbatim>\<open>typeof coupon.group === "object" && coupon.group._id ? coupon.group._id : coupon.group\<close>
\<close>

definition resolve_group :: "heap \<Rightarrow> jsval \<Rightarrow> exn + jsval" where
  "resolve_group h grp =
     (if typeof_object grp then
        (case get_prop h grp ''_id'' of
           Inl e \<Rightarrow> Inl e
         | Inr i \<Rightarrow> Inr (if truthy i then i else grp))
      else Inr grp)"

text \<open>\<open>if (x && !arr.includes(x)) arr.push(x)\<close> on the array at an address.\<close>

definition push_unique :: "heap \<Rightarrow> addr \<Rightarrow> jsval \<Rightarrow> heap" where
  "push_unique h a x =
     (if truthy x \<and> \<not> array_includes (array_elems h (Ref a)) x then push h a x else h)"

text \<open>
  The body of the \<open>forEach\<close> callback for one coupon.  It returns the exception thrown,
  if any, and the store at that moment: \<open>coupon.group\<close> on a null or undefined element
  throws after the element has been pushed onto \<open>this.coupons\<close>.
\<close>

definition scan_coupon :: "TestDataManager \<Rightarrow> heap \<Rightarrow> jsval \<Rightarrow> exn option \<times> heap" where
  "scan_coupon this h coupon =
     (let h1 = push h (coupons this) coupon in
      case get_prop h1 coupon ''group'' of
        Inl e \<Rightarrow> (Some e, h1)
      | Inr grp \<Rightarrow>
          (case (if truthy grp then
                   (case resolve_group h1 grp of
                      Inl e \<Rightarrow> Inl e
                    | Inr groupId \<Rightarrow> Inr (push_unique h1 (groupIds this) groupId))
                 else Inr h1) of
             Inl e \<Rightarrow> (Some e, h1)
           | Inr h2 \<Rightarrow>
               (case get_prop h2 coupon ''code'' of
                  Inl e \<Rightarrow> (Some e, h2)
                | Inr code \<Rightarrow> (None, push_unique h2 (couponCodes this) code))))"

text \<open>
  \<open>coupons.forEach(...)\<close> over the elements of the list; the callback writes only to the
  three arrays of the manager, which are new, so the list itself does not change while it
  is scanned.  An exception ends the scan.
\<close>

fun forEach_scan :: "TestDataManager \<Rightarrow> heap \<Rightarrow> jsval list \<Rightarrow> exn option \<times> heap" where
  "forEach_scan this h [] = (None, h)"
| "forEach_scan this h (coupon # rest) =
     (case scan_coupon this h coupon of
        (Some e, h') \<Rightarrow> (Some e, h')
      | (None, h') \<Rightarrow> forEach_scan this h' rest)"

text \<open>
  \<open>processCouponsData(couponsResponse)\<close>: the exception thrown (if any), the store and
  the manager afterwards.
\<close>

definition processCouponsData ::
  "jsval \<Rightarrow> heap \<Rightarrow> TestDataManager \<Rightarrow> exn option \<times> heap \<times> TestDataManager" where
  "processCouponsData couponsResponse h this =
     (if \<not> truthy couponsResponse then (None, h, this)
      else
        (case get_prop h couponsResponse ''data'' of
           Inl e \<Rightarrow> (Some e, h, this)
         | Inr d \<Rightarrow>
             if \<not> truthy d \<or> \<not> isArray h d then (None, h, this)
             else
               (let (this', h') = new_arrays h;
                    (r, h'') = forEach_scan this' h' (array_elems h d)
                in (r, h'', this'))))"

text \<open>The accessors: a spread \<open>[...arr]\<close> is a new array with the same elements.\<close>

definition getAllGroupIds :: "heap \<Rightarrow> TestDataManager \<Rightarrow> addr \<times> heap" where
  "getAllGroupIds h this = alloc h (Arr (array_elems h (Ref (groupIds this))))"

definition getAllCouponCodes :: "heap \<Rightarrow> TestDataManager \<Rightarrow> addr \<times> heap" where
  "getAllCouponCodes h this = alloc h (Arr (array_elems h (Ref (couponCodes this))))"

definition getAllCoupons :: "heap \<Rightarrow> TestDataManager \<Rightarrow> addr \<times> heap" where
  "getAllCoupons h this = alloc h (Arr (array_elems h (Ref (coupons this))))"

record stats =
  totalCoupons :: nat
  uniqueGroupIds :: nat
  uniqueCouponCodes :: nat

definition getStats :: "heap \<Rightarrow> TestDataManager \<Rightarrow> stats" where
  "getStats h this =
     \<lparr>totalCoupons = length (array_elems h (Ref (coupons this))),
      uniqueGroupIds = length (array_elems h (Ref (groupIds this))),
      uniqueCouponCodes = length (array_elems h (Ref (couponCodes this)))\<rparr>"

text \<open>
  The arithmetic of \<open>Math.floor(Math.random() * this.groupIds.length)\<close>.  The product of
  two doubles is the exact product rounded to the nearest double, a tie going to the even
  significand.  For a magnitude \<open>x\<close> with \<open>2^e \<le> x < 2^(e+1)\<close> the doubles around \<open>x\<close> are
  the multiples of \<open>2^(e-52)\<close>, and the multiples of \<open>2^-1074\<close> when \<open>x < 2^-1022\<close>; the
  overflow to infinity at \<open>2^1024\<close> is not reached by the product of a number below 1 and
  the length of an array, and is left out.
\<close>

definition round_half_even :: "rat \<Rightarrow> int" where
  "round_half_even y =
     (let f = \<lfloor>y\<rfloor>; d = y - of_int f
      in if d < 1 / 2 then f else if 1 / 2 < d then f + 1 else if even f then f else f + 1)"

text \<open>How often a magnitude below \<open>2^53\<close> is doubled until it reaches \<open>2^52\<close>, at most
  1074 times; and how often a magnitude is halved until it is below \<open>2^53\<close>.\<close>

function doublings :: "nat \<Rightarrow> rat \<Rightarrow> nat" where
  "doublings k x = (if 1074 \<le> k \<or> 2 ^ 52 \<le> x then k else doublings (Suc k) (2 * x))"
  by pat_completeness auto
termination
  by (relation "measure (\<lambda>(k, x). 1074 - k)") auto

function halvings :: "rat \<Rightarrow> nat" where
  "halvings x = (if x < 2 ^ 53 then 0 else Suc (halvings (x / 2)))"
  by pat_completeness auto
termination
proof (relation "measure (\<lambda>x. nat \<lfloor>x\<rfloor>)")
  show "wf (measure (\<lambda>x::rat. nat \<lfloor>x\<rfloor>))" by simp
next
  fix x :: rat
  assume "\<not> x < 2 ^ 53"
  then have x: "2 \<le> x" by simp
  have "\<lfloor>x / 2\<rfloor> \<le> \<lfloor>x - 1\<rfloor>" using x by (intro floor_mono) simp
  also have "\<dots> < \<lfloor>x\<rfloor>" by simp
  finally have "\<lfloor>x / 2\<rfloor> < \<lfloor>x\<rfloor>" .
  moreover have "0 < \<lfloor>x\<rfloor>" using x by simp
  ultimately show "(x / 2, x) \<in> measure (\<lambda>x. nat \<lfloor>x\<rfloor>)" by simp
qed

declare doublings.simps [simp del] halvings.simps [simp del]

definition round_magnitude :: "rat \<Rightarrow> rat" where
  "round_magnitude x =
     (if x < 2 ^ 53
      then (let j = doublings 0 x in of_int (round_half_even (x * 2 ^ j)) / 2 ^ j)
      else (let j = halvings x in of_int (round_half_even (x / 2 ^ j)) * 2 ^ j))"

definition round_double :: "rat \<Rightarrow> rat" where
  "round_double x = (if x < 0 then - round_magnitude (- x) else round_magnitude x)"

text \<open>A rational number is a double when rounding leaves it as it is.\<close>

definition binary64 :: "rat \<Rightarrow> bool" where
  "binary64 x = (round_double x = x)"

text \<open>
  \<open>getRandomGroupId()\<close>; \<open>r\<close> is the double that \<open>Math.random()\<close> returned, \<open>0 \<le> r < 1\<close>.
  The length of an array is an integer below \<open>2^32\<close>, a double; \<open>Math.floor\<close> of a double
  is exact.
\<close>

definition randomIndex :: "rat \<Rightarrow> nat \<Rightarrow> nat" where
  "randomIndex r n = nat \<lfloor>round_double (r * of_nat n)\<rfloor>"

text \<open>\<open>arr[i]\<close>: undefined out of range.\<close>

definition array_get :: "jsval list \<Rightarrow> nat \<Rightarrow> jsval" where
  "array_get xs i = (if i < length xs then xs ! i else Undefined)"

definition getRandomGroupId :: "rat \<Rightarrow> heap \<Rightarrow> TestDataManager \<Rightarrow> jsval" where
  "getRandomGroupId r h this =
     (let xs = array_elems h (Ref (groupIds this)) in
      if length xs = 0 then Null
      else array_get xs (randomIndex r (length xs)))"

subsection \<open>What a scan computes\<close>

text \<open>
  The notions the properties of an ingestion are stated with.  A null or undefined element
  of the list ends the scan with a TypeError; the elements before it are the scanned ones.
\<close>

definition nullish :: "jsval \<Rightarrow> bool" where
  "nullish v = (v = Undefined \<or> v = Null)"

definition scanned :: "jsval list \<Rightarrow> jsval list" where
  "scanned elems = takeWhile (\<lambda>c. \<not> nullish c) elems"

text \<open>The candidate group identifier and code of one scanned coupon (undefined when the
  coupon has no truthy \<open>group\<close>, or no \<open>code\<close>).\<close>

definition coupon_group_id :: "heap \<Rightarrow> jsval \<Rightarrow> jsval" where
  "coupon_group_id h coupon =
     (case get_prop h coupon ''group'' of
        Inl e \<Rightarrow> Undefined
      | Inr grp \<Rightarrow>
          if truthy grp then (case resolve_group h grp of Inl e \<Rightarrow> Undefined | Inr i \<Rightarrow> i)
          else Undefined)"

definition coupon_code :: "heap \<Rightarrow> jsval \<Rightarrow> jsval" where
  "coupon_code h coupon = (case get_prop h coupon ''code'' of Inl e \<Rightarrow> Undefined | Inr c \<Rightarrow> c)"

text \<open>A list without its repetitions, every value at the place of its first occurrence.\<close>

fun first_occurrences :: "'a list \<Rightarrow> 'a list" where
  "first_occurrences [] = []"
| "first_occurrences (x # xs) = x # first_occurrences (filter (\<lambda>y. y \<noteq> x) xs)"

definition add_unique :: "jsval list \<Rightarrow> jsval \<Rightarrow> jsval list" where
  "add_unique xs x = (if truthy x \<and> \<not> array_includes xs x then xs @ [x] else xs)"

definition manager_at :: "nat \<Rightarrow> TestDataManager" where
  "manager_at n = \<lparr>groupIds = n, couponCodes = Suc n, coupons = Suc (Suc n)\<rparr>"

text \<open>A response whose \<open>data\<close> is an array: the payload \<open>processCouponsData\<close> scans.\<close>

definition list_payload :: "heap \<Rightarrow> jsval \<Rightarrow> jsval \<Rightarrow> bool" where
  "list_payload h resp d = (truthy resp \<and> get_prop h resp ''data'' = Inr d \<and> isArray h d)"

text \<open>The contents of the three indexes of a manager.\<close>

definition group_index :: "heap \<Rightarrow> TestDataManager \<Rightarrow> jsval list" where
  "group_index h this = array_elems h (Ref (groupIds this))"

definition code_index :: "heap \<Rightarrow> TestDataManager \<Rightarrow> jsval list" where
  "code_index h this = array_elems h (Ref (couponCodes this))"

definition coupon_list :: "heap \<Rightarrow> TestDataManager \<Rightarrow> jsval list" where
  "coupon_list h this = array_elems h (Ref (coupons this))"

text \<open>Any mutation of an array (push, pop, splice, an assignment to an index or to
  \<open>length\<close>) leaves the array at its address with some new elements.\<close>

definition mutate_array :: "heap \<Rightarrow> addr \<Rightarrow> jsval list \<Rightarrow> heap" where
  "mutate_array h a ys = (case heap_at h a of Some (Arr xs) \<Rightarrow> h[a := Arr ys] | _ \<Rightarrow> h)"

text \<open>A manager whose three fields refer to arrays of the store.\<close>

definition manager_ok :: "heap \<Rightarrow> TestDataManager \<Rightarrow> bool" where
  "manager_ok h this =
     (isArray h (Ref (groupIds this)) \<and> isArray h (Ref (couponCodes this)) \<and>
      isArray h (Ref (coupons this)))"

text \<open>The array an accessor returns, read in the store the accessor leaves; and the store
  after the accessor was called and the array it returned was mutated.\<close>

definition returned :: "(heap \<Rightarrow> TestDataManager \<Rightarrow> addr \<times> heap) \<Rightarrow> heap \<Rightarrow> TestDataManager \<Rightarrow> jsval list" where
  "returned acc h this = array_elems (snd (acc h this)) (Ref (fst (acc h this)))"

definition after_mutation ::
  "(heap \<Rightarrow> TestDataManager \<Rightarrow> addr \<times> heap) \<Rightarrow> heap \<Rightarrow> TestDataManager \<Rightarrow> jsval list \<Rightarrow> heap" where
  "after_mutation acc h this ys = mutate_array (snd (acc h this)) (fst (acc h this)) ys"

text \<open>A scalar: any value but a reference to an object or array.\<close>

fun is_scalar :: "jsval \<Rightarrow> bool" where
  "is_scalar (Ref a) = False"
| "is_scalar v = True"

text \<open>The outcome of an ingestion as a caller can observe it: the exception thrown, if
  any, and the contents of the three indexes.\<close>

definition index_view ::
  "exn option \<times> heap \<times> TestDataManager \<Rightarrow> exn option \<times> jsval list \<times> jsval list \<times> jsval list" where
  "index_view res =
     (fst res, group_index (fst (snd res)) (snd (snd res)),
      code_index (fst (snd res)) (snd (snd res)), coupon_list (fst (snd res)) (snd (snd res)))"

text \<open>What a scan of a list computes from empty indexes, by the words of the
  specification: the resolved group identifiers and the codes of the scanned records,
  without falsy values and repetitions, in the order of their first occurrence.\<close>

definition scan_result :: "heap \<Rightarrow> jsval list \<Rightarrow> exn option \<times> jsval list \<times> jsval list \<times> jsval list" where
  "scan_result h elems =
     ((if list_ex nullish elems then Some TypeError else None),
      first_occurrences (filter truthy (map (coupon_group_id h) (scanned elems))),
      first_occurrences (filter truthy (map (coupon_code h) (scanned elems))),
      take (Suc (length (scanned elems))) elems)"

text \<open>
  A store for the examples.  A coupon list response of three coupons: the first with an
  embedded group object that has no \<open>_id\<close>, the second with a bare group identifier, the
  third with an embedded group object of the same identifier; an array that is no longer
  in use; a manager (at addresses 8 to 10) that holds the result of an earlier ingestion;
  and a second list response, of the last two coupons.
\<close>

definition example_heap :: heap where
  "example_heap =
     [Obj [(''name'', Str ''VIP'')],
      Arr [],
      Obj [(''_id'', Str ''g7''), (''name'', Str ''Summer'')],
      Obj [(''_id'', Str ''c1''), (''group'', Ref 0), (''code'', Str ''A1'')],
      Obj [(''_id'', Str ''c2''), (''group'', Str ''g7''), (''code'', Str ''A1'')],
      Obj [(''_id'', Str ''c3''), (''group'', Ref 2), (''code'', Str ''B2'')],
      Arr [Ref 3, Ref 4, Ref 5],
      Obj [(''status'', Str ''OK''), (''data'', Ref 6)],
      Arr [Str ''g0'', Str ''g7''],
      Arr [Str ''Z9''],
      Arr [Ref 4],
      Arr [Ref 4, Ref 5],
      Obj [(''status'', Str ''OK''), (''data'', Ref 11)]]"

text \<open>A store with a manager (at addresses 0 to 2) whose index holds three group
  identifiers.\<close>

definition three_groups_heap :: heap where
  "three_groups_heap = [Arr [Str ''g1'', Str ''g2'', Str ''g3''], Arr [], Arr []]"

section \<open>Statements that may throw\<close>








section \<open>The HTTP API client (test/utils/api-client.js)\<close>

subsection \<open>Strings of values and the query string\<close>











subsection \<open>The client\<close>














section \<open>The logger and the cleanup of fixtures\<close>










section \<open>The test scenarios\<close>





































section \<open>Properties of the value model\<close>

lemma same_value_zero_truthy:
  "truthy x \<Longrightarrow> same_value_zero y x = (y = x)"
  by (cases y; cases x) (auto simp: is_zero_def)

lemma array_includes_truthy:
  "truthy x \<Longrightarrow> array_includes xs x = (x \<in> set xs)"
  by (auto simp: array_includes_def list_ex_iff same_value_zero_truthy)

section \<open>Ingestion: the store after a scan\<close>

lemma heap_at_append_old: "a < length h \<Longrightarrow> heap_at (h @ ext) a = heap_at h a"
  by (simp add: heap_at_def nth_append)

lemma get_prop_append: "refs_below (length h) v \<Longrightarrow> get_prop (h @ ext) v k = get_prop h v k"
  by (cases v) (simp_all add: heap_at_append_old)

lemma get_prop_nullish: "get_prop h v k = Inl e \<Longrightarrow> nullish v \<and> e = TypeError"
  by (cases v) (auto simp: nullish_def split: option.splits jsobj.splits)

lemma get_prop_not_nullish: "\<not> nullish v \<Longrightarrow> \<exists>w. get_prop h v k = Inr w"
  by (cases v) (auto simp: nullish_def split: option.splits jsobj.splits)

lemma map_of_below:
  "list_all (\<lambda>kv. refs_below n (snd kv)) fs \<Longrightarrow> map_of fs k = Some w \<Longrightarrow> refs_below n w"
  by (induction fs) (auto split: if_splits)

lemma get_prop_below:
  "heap_ok h \<Longrightarrow> get_prop h v k = Inr w \<Longrightarrow> refs_below (length h) w"
proof (cases v)
  case (Ref a)
  assume ok: "heap_ok h" and g: "get_prop h v k = Inr w"
  show ?thesis
  proof (cases "heap_at h a")
    case None
    with g Ref show ?thesis by auto
  next
    case (Some ob)
    then have a: "a < length h" "h ! a = ob" by (auto simp: heap_at_def split: if_splits)
    with ok have ob: "obj_below (length h) ob" by (auto simp: heap_ok_def list_all_length)
    show ?thesis
    proof (cases ob)
      case (Obj fs)
      with g Ref Some ob show ?thesis
        by (cases "map_of fs k") (auto dest: map_of_below)
    next
      case (Arr xs)
      with g Ref Some show ?thesis by auto
    qed
  qed
qed auto

lemma array_elems_ext:
  "array_elems (h @ [Arr G, Arr C, Arr K]) (Ref (length h)) = G"
  "array_elems (h @ [Arr G, Arr C, Arr K]) (Ref (Suc (length h))) = C"
  "array_elems (h @ [Arr G, Arr C, Arr K]) (Ref (Suc (Suc (length h)))) = K"
  by (simp_all add: heap_at_def nth_append)

lemma push_ext:
  "push (h @ [Arr G, Arr C, Arr K]) (length h) x = h @ [Arr (G @ [x]), Arr C, Arr K]"
  "push (h @ [Arr G, Arr C, Arr K]) (Suc (length h)) x = h @ [Arr G, Arr (C @ [x]), Arr K]"
  "push (h @ [Arr G, Arr C, Arr K]) (Suc (Suc (length h))) x = h @ [Arr G, Arr C, Arr (K @ [x])]"
  by (simp_all add: push_def heap_at_def nth_append list_update_append)

lemma push_unique_ext:
  "push_unique (h @ [Arr G, Arr C, Arr K]) (length h) x = h @ [Arr (add_unique G x), Arr C, Arr K]"
  "push_unique (h @ [Arr G, Arr C, Arr K]) (Suc (length h)) x = h @ [Arr G, Arr (add_unique C x), Arr K]"
  by (simp_all add: push_unique_def add_unique_def array_elems_ext push_ext del: array_elems.simps)


lemma resolve_group_append:
  "refs_below (length h) grp \<Longrightarrow> resolve_group (h @ ext) grp = resolve_group h grp"
  by (simp add: resolve_group_def get_prop_append)

lemma resolve_group_truthy: "truthy grp \<Longrightarrow> \<exists>i. resolve_group h grp = Inr i"
  by (cases grp) (auto simp: resolve_group_def split: option.splits jsobj.splits)

lemma scan_coupon_ext:
  assumes ok: "heap_ok h" and c: "refs_below (length h) coupon"
  shows "scan_coupon (manager_at (length h)) (h @ [Arr G, Arr C, Arr K]) coupon =
    (if nullish coupon then (Some TypeError, h @ [Arr G, Arr C, Arr (K @ [coupon])])
     else (None, h @ [Arr (add_unique G (coupon_group_id h coupon)),
                      Arr (add_unique C (coupon_code h coupon)), Arr (K @ [coupon])]))"
proof (cases "nullish coupon")
  case True
  then show ?thesis
    by (auto simp: scan_coupon_def manager_at_def push_ext nullish_def)
next
  case False
  obtain grp where grp: "get_prop h coupon ''group'' = Inr grp"
    using get_prop_not_nullish [OF False] by blast
  obtain code where code: "get_prop h coupon ''code'' = Inr code"
    using get_prop_not_nullish [OF False] by blast
  have gb: "refs_below (length h) grp" using get_prop_below [OF ok grp] .
  show ?thesis
  proof (cases "truthy grp")
    case True
    obtain i where i: "resolve_group h grp = Inr i" using resolve_group_truthy [OF True] by blast
    from False grp code True i gb c show ?thesis
      by (simp add: scan_coupon_def manager_at_def push_ext get_prop_append resolve_group_append
          push_unique_ext coupon_group_id_def coupon_code_def Let_def)
  next
    case nt: False
    have au: "add_unique G Undefined = G" by (simp add: add_unique_def)
    from False grp code nt c show ?thesis
      by (simp add: scan_coupon_def manager_at_def push_ext get_prop_append
          push_unique_ext coupon_group_id_def coupon_code_def Let_def au)
  qed
qed

lemma forEach_scan_ext:
  assumes ok: "heap_ok h" and cs: "list_all (refs_below (length h)) elems"
  shows "forEach_scan (manager_at (length h)) (h @ [Arr G, Arr C, Arr K]) elems =
    ((if list_ex nullish elems then Some TypeError else None),
     h @ [Arr (foldl add_unique G (map (coupon_group_id h) (scanned elems))),
          Arr (foldl add_unique C (map (coupon_code h) (scanned elems))),
          Arr (K @ take (Suc (length (scanned elems))) elems)])"
  using cs
proof (induction elems arbitrary: G C K)
  case Nil
  then show ?case by (simp add: scanned_def)
next
  case (Cons c cs)
  then have c: "refs_below (length h) c" and rest: "list_all (refs_below (length h)) cs" by simp_all
  show ?case
  proof (cases "nullish c")
    case True
    then show ?thesis by (simp add: scan_coupon_ext [OF ok c] scanned_def)
  next
    case False
    then show ?thesis by (simp add: scan_coupon_ext [OF ok c] Cons.IH [OF rest] scanned_def)
  qed
qed

lemma add_unique_set: "set (add_unique xs x) \<subseteq> insert x (set xs)"
  by (auto simp: add_unique_def)

lemma foldl_add_unique_first:
  "distinct G \<Longrightarrow> list_all truthy G \<Longrightarrow>
   foldl add_unique G ys = G @ first_occurrences (filter (\<lambda>y. truthy y \<and> y \<notin> set G) ys)"
proof (induction ys arbitrary: G)
  case Nil
  then show ?case by simp
next
  case (Cons y ys)
  show ?case
  proof (cases "truthy y \<and> y \<notin> set G")
    case True
    then have au: "add_unique G y = G @ [y]" by (simp add: add_unique_def array_includes_truthy)
    have d: "distinct (G @ [y])" "list_all truthy (G @ [y])" using Cons.prems True by auto
    have f: "filter (\<lambda>z. truthy z \<and> z \<notin> set (G @ [y])) ys
           = filter (\<lambda>z. z \<noteq> y) (filter (\<lambda>z. truthy z \<and> z \<notin> set G) ys)"
      by (induction ys) auto
    have "foldl add_unique G (y # ys) = foldl add_unique (G @ [y]) ys" by (simp add: au)
    also have "\<dots> = (G @ [y]) @ first_occurrences (filter (\<lambda>z. truthy z \<and> z \<notin> set (G @ [y])) ys)"
      by (rule Cons.IH [OF d])
    also have "\<dots> = G @ y # first_occurrences (filter (\<lambda>z. z \<noteq> y) (filter (\<lambda>z. truthy z \<and> z \<notin> set G) ys))"
      by (simp only: f append_assoc append_Cons append_Nil)
    also have "\<dots> = G @ first_occurrences (filter (\<lambda>z. truthy z \<and> z \<notin> set G) (y # ys))"
      using True by simp
    finally show ?thesis .
  next
    case False
    then have au: "add_unique G y = G" by (auto simp: add_unique_def array_includes_truthy)
    show ?thesis using False by (auto simp add: au Cons.IH [OF Cons.prems])
  qed
qed

lemma foldl_add_unique_empty:
  "foldl add_unique [] ys = first_occurrences (filter truthy ys)"
  using foldl_add_unique_first [of "[]" ys] by simp

lemma set_first_occurrences: "set (first_occurrences xs) = set xs"
  by (induction xs rule: first_occurrences.induct) auto

lemma distinct_first_occurrences: "distinct (first_occurrences xs)"
  by (induction xs rule: first_occurrences.induct) (auto simp: set_first_occurrences)


lemma new_arrays_eq: "new_arrays h = (manager_at (length h), h @ [Arr [], Arr [], Arr []])"
  by (simp add: new_arrays_def alloc_def manager_at_def)

lemma array_elems_below:
  assumes ok: "heap_ok h" and arr: "isArray h d"
  shows "list_all (refs_below (length h)) (array_elems h d)"
proof (cases d)
  case (Ref a)
  with arr obtain xs where xs: "heap_at h a = Some (Arr xs)"
    by (auto split: option.splits jsobj.splits)
  then have a: "a < length h" "h ! a = Arr xs" by (auto simp: heap_at_def split: if_splits)
  with ok have "obj_below (length h) (Arr xs)" by (auto simp: heap_ok_def list_all_length)
  with Ref xs show ?thesis by simp
qed (use arr in auto)

lemma processCouponsData_list:
  assumes ok: "heap_ok h" and p: "list_payload h resp d"
  shows "processCouponsData resp h this =
    ((if list_ex nullish (array_elems h d) then Some TypeError else None),
     h @ [Arr (first_occurrences (filter truthy (map (coupon_group_id h) (scanned (array_elems h d))))),
          Arr (first_occurrences (filter truthy (map (coupon_code h) (scanned (array_elems h d))))),
          Arr (take (Suc (length (scanned (array_elems h d)))) (array_elems h d))],
     manager_at (length h))"
proof -
  from p have t: "truthy resp" and d: "get_prop h resp ''data'' = Inr d" and arr: "isArray h d"
    by (simp_all add: list_payload_def)
  from arr have td: "truthy d" by (cases d) simp_all
  have elems: "list_all (refs_below (length h)) (array_elems h d)"
    by (rule array_elems_below [OF ok arr])
  show ?thesis
    using t d arr td
    by (simp add: processCouponsData_def new_arrays_eq forEach_scan_ext [OF ok elems]
        foldl_add_unique_empty)
qed

lemma processCouponsData_index:
  assumes ok: "heap_ok h" and p: "list_payload h resp d"
    and run: "processCouponsData resp h this = (r, h', this')"
  shows "group_index h' this' =
           first_occurrences (filter truthy (map (coupon_group_id h) (scanned (array_elems h d))))"
    and "code_index h' this' =
           first_occurrences (filter truthy (map (coupon_code h) (scanned (array_elems h d))))"
    and "coupon_list h' this' = take (Suc (length (scanned (array_elems h d)))) (array_elems h d)"
    and "r = (if list_ex nullish (array_elems h d) then Some TypeError else None)"
  using run unfolding processCouponsData_list [OF ok p]
  by (auto simp: group_index_def code_index_def coupon_list_def manager_at_def array_elems_ext
      simp del: array_elems.simps)

section \<open>The example store\<close>

lemma example_heap_ok: "heap_ok example_heap"
  by (simp add: heap_ok_def example_heap_def)

lemma example_payload: "list_payload example_heap (Ref 7) (Ref 6)"
  by (simp add: list_payload_def example_heap_def heap_at_def)

lemma example_elems: "array_elems example_heap (Ref 6) = [Ref 3, Ref 4, Ref 5]"
  by (simp add: example_heap_def heap_at_def)

lemma example_group_ids:
  "coupon_group_id example_heap (Ref 3) = Ref 0"
  "coupon_group_id example_heap (Ref 4) = Str ''g7''"
  "coupon_group_id example_heap (Ref 5) = Str ''g7''"
  by (simp_all add: coupon_group_id_def resolve_group_def example_heap_def heap_at_def)

lemma example_codes:
  "coupon_code example_heap (Ref 3) = Str ''A1''"
  "coupon_code example_heap (Ref 4) = Str ''A1''"
  "coupon_code example_heap (Ref 5) = Str ''B2''"
  by (simp_all add: coupon_code_def example_heap_def heap_at_def)

lemma example_scanned: "scanned [Ref 3, Ref 4, Ref 5] = [Ref 3, Ref 4, Ref 5]"
  by (simp add: scanned_def nullish_def)

lemma list_all_truthy_first: "list_all truthy (first_occurrences (filter truthy ys))"
  by (simp add: list_all_iff set_first_occurrences)

section \<open>The claims on the Test Data Manager\<close>

text \<open>
  Claim C6.  After every call of \<open>processCouponsData\<close> with a list payload, the
  group-identifier index and the coupon-code index hold no value twice and no falsy value,
  and their entries stand in the order of their first occurrence in the scanned list: each
  index is the list of the truthy candidates of the scanned records, every value at its
  first occurrence.  (On truthy values the comparison of \<open>includes\<close> is equality, see
  \<open>same_value_zero_truthy\<close>.)  This holds also when a null element ends the scan with
  a TypeError, for the records scanned before it.
\<close>

theorem ingest_indexes_distinct_truthy_ordered:
  assumes "heap_ok h" and "list_payload h resp d"
    and "processCouponsData resp h this = (r, h', this')"
  shows "group_index h' this' =
           first_occurrences (filter truthy (map (coupon_group_id h) (scanned (array_elems h d))))
       \<and> code_index h' this' =
           first_occurrences (filter truthy (map (coupon_code h) (scanned (array_elems h d))))
       \<and> distinct (group_index h' this') \<and> distinct (code_index h' this')
       \<and> list_all truthy (group_index h' this') \<and> list_all truthy (code_index h' this')"
  using processCouponsData_index(1,2) [OF assms]
  by (simp add: distinct_first_occurrences list_all_truthy_first)

theorem ingest_indexes_witness:
  "heap_ok example_heap \<and> list_payload example_heap (Ref 7) (Ref 6)
   \<and> index_view (processCouponsData (Ref 7) example_heap (manager_at 8))
       = (None, [Ref 0, Str ''g7''], [Str ''A1'', Str ''B2''], [Ref 3, Ref 4, Ref 5])
   \<and> distinct [Ref 0, Str ''g7''] \<and> list_all truthy [Ref 0, Str ''g7'']"
proof -
  let ?R = "processCouponsData (Ref 7) example_heap (manager_at 8)"
  have run: "?R = (fst ?R, fst (snd ?R), snd (snd ?R))" by simp
  have r: "fst ?R = None" and k: "coupon_list (fst (snd ?R)) (snd (snd ?R)) = [Ref 3, Ref 4, Ref 5]"
    using processCouponsData_index(3,4) [OF example_heap_ok example_payload run]
    by (simp_all add: example_elems example_scanned nullish_def del: array_elems.simps)
  show ?thesis
    using ingest_indexes_distinct_truthy_ordered [OF example_heap_ok example_payload run] r k
    by (simp add: example_heap_ok example_payload index_view_def example_elems example_scanned
        example_group_ids example_codes del: array_elems.simps)
qed

lemma processCouponsData_noop:
  assumes "resp = Undefined \<or> get_prop h resp ''data'' = Inr Undefined
           \<or> (\<exists>d. get_prop h resp ''data'' = Inr d \<and> \<not> isArray h d)"
  shows "processCouponsData resp h this = (None, h, this)"
proof (cases "truthy resp")
  case False
  then show ?thesis by (simp add: processCouponsData_def)
next
  case True
  with assms obtain d where d: "get_prop h resp ''data'' = Inr d" and na: "\<not> isArray h d"
    by auto
  then show ?thesis by (simp add: processCouponsData_def)
qed

lemma index_view_list:
  assumes ok: "heap_ok h" and p: "list_payload h resp d"
  shows "index_view (processCouponsData resp h this) = scan_result h (array_elems h d)"
  unfolding processCouponsData_list [OF ok p]
  by (simp add: index_view_def scan_result_def group_index_def code_index_def coupon_list_def
      manager_at_def array_elems_ext del: array_elems.simps)

text \<open>
  Claim C5.  For every prior state of the manager: \<open>processCouponsData\<close> with an
  argument that is absent, that has no \<open>data\<close> field, or whose \<open>data\<close> is not an array
  changes nothing, neither the store nor the manager; with an array \<open>data\<close> it replaces the
  state: what a caller observes afterwards (the exception, if a null element ended the scan,
  and the three indexes) is what the scan of the new list gives from empty indexes, the
  same for every prior manager.
\<close>

theorem ingest_noop_or_replace:
  "((resp = Undefined \<or> get_prop h resp ''data'' = Inr Undefined
      \<or> (\<exists>d. get_prop h resp ''data'' = Inr d \<and> \<not> isArray h d))
     \<longrightarrow> processCouponsData resp h this = (None, h, this))
   \<and> (heap_ok h \<and> list_payload h resp d
     \<longrightarrow> index_view (processCouponsData resp h this) = scan_result h (array_elems h d)
       \<and> (\<forall>this0. index_view (processCouponsData resp h this0)
                  = index_view (processCouponsData resp h this)))"
  using processCouponsData_noop [of resp h this] index_view_list [of h resp d]
  by simp

lemma example_scan_result:
  "scan_result example_heap [Ref 3, Ref 4, Ref 5]
     = (None, [Ref 0, Str ''g7''], [Str ''A1'', Str ''B2''], [Ref 3, Ref 4, Ref 5])"
  by (simp add: scan_result_def scanned_def nullish_def example_group_ids example_codes)

theorem ingest_noop_or_replace_witness:
  "processCouponsData Undefined example_heap (manager_at 8) = (None, example_heap, manager_at 8)
   \<and> get_prop example_heap (Ref 0) ''data'' = Inr Undefined
   \<and> processCouponsData (Ref 0) example_heap (manager_at 8) = (None, example_heap, manager_at 8)
   \<and> heap_ok example_heap \<and> list_payload example_heap (Ref 7) (Ref 6)
   \<and> index_view (None :: exn option, example_heap, manager_at 8) = (None, [Str ''g0'', Str ''g7''], [Str ''Z9''], [Ref 4])
   \<and> index_view (processCouponsData (Ref 7) example_heap (manager_at 8))
       = (None, [Ref 0, Str ''g7''], [Str ''A1'', Str ''B2''], [Ref 3, Ref 4, Ref 5])"
proof -
  have a: "get_prop example_heap (Ref 0) ''data'' = Inr Undefined"
    by (simp add: example_heap_def heap_at_def)
  have v: "index_view (None :: exn option, example_heap, manager_at 8) = (None, [Str ''g0'', Str ''g7''], [Str ''Z9''], [Ref 4])"
    by (simp add: index_view_def group_index_def code_index_def coupon_list_def manager_at_def
        example_heap_def heap_at_def)
  have n1: "processCouponsData Undefined example_heap (manager_at 8) = (None, example_heap, manager_at 8)"
    using ingest_noop_or_replace [of Undefined example_heap "manager_at 8" "Ref 6"] by simp
  have n2: "processCouponsData (Ref 0) example_heap (manager_at 8) = (None, example_heap, manager_at 8)"
    using ingest_noop_or_replace [of "Ref 0" example_heap "manager_at 8" "Ref 6"] a
    by (simp del: get_prop.simps)
  have n3: "index_view (processCouponsData (Ref 7) example_heap (manager_at 8))
       = (None, [Ref 0, Str ''g7''], [Str ''A1'', Str ''B2''], [Ref 3, Ref 4, Ref 5])"
    using ingest_noop_or_replace [of "Ref 7" example_heap "manager_at 8" "Ref 6"]
    by (simp add: example_heap_ok example_payload example_elems example_scan_result
        del: array_elems.simps get_prop.simps)
  show ?thesis
    using n1 n2 n3 a v example_heap_ok example_payload by simp
qed


lemma coupon_group_id_cases:
  assumes g: "get_prop h c ''group'' = Inr grp"
  shows "(\<forall>s. grp = Str s \<longrightarrow> coupon_group_id h c = (if s = [] then Undefined else Str s))
       \<and> (\<forall>a i. grp = Ref a \<and> get_prop h grp ''_id'' = Inr i \<and> truthy i \<longrightarrow> coupon_group_id h c = i)
       \<and> (\<forall>a i. grp = Ref a \<and> get_prop h grp ''_id'' = Inr i \<and> \<not> truthy i
             \<longrightarrow> coupon_group_id h c = Ref a)"
  using g by (auto simp: coupon_group_id_def resolve_group_def)

lemma coupon_group_id_scalar:
  assumes c: "\<not> nullish c"
    and ids: "\<forall>a. get_prop h c ''group'' = Inr (Ref a)
               \<longrightarrow> (\<exists>i. get_prop h (Ref a) ''_id'' = Inr i \<and> truthy i \<and> is_scalar i)"
  shows "is_scalar (coupon_group_id h c)"
proof -
  obtain grp where grp: "get_prop h c ''group'' = Inr grp"
    using get_prop_not_nullish [OF c] by blast
  show ?thesis
  proof (cases grp)
    case (Ref a)
    with ids grp obtain i where "get_prop h (Ref a) ''_id'' = Inr i" "truthy i" "is_scalar i"
      by blast
    with grp Ref show ?thesis by (simp add: coupon_group_id_def resolve_group_def)
  qed (use grp in \<open>simp_all add: coupon_group_id_def resolve_group_def\<close>)
qed

lemma scanned_not_nullish: "c \<in> set (scanned elems) \<Longrightarrow> \<not> nullish c"
  by (auto simp: scanned_def dest: set_takeWhileD)

text \<open>
  Claim C1, as amended.  For every list response ingested, the group-identifier index
  holds exactly the truthy resolved group identifiers of the scanned records, where the
  identifier resolved from a record's \<open>group\<close> is: the string itself for a non-empty string;
  the \<open>_id\<close> for an object with a truthy \<open>_id\<close>; the object itself for an object without a
  truthy \<open>_id\<close>.  The index holds only scalars when every embedded group object of a scanned
  record has a truthy scalar \<open>_id\<close>.
\<close>

theorem group_index_resolved:
  assumes "heap_ok h" and "list_payload h resp d"
    and "processCouponsData resp h this = (r, h', this')"
  shows "set (group_index h' this')
           = {x. truthy x \<and> x \<in> coupon_group_id h ` set (scanned (array_elems h d))}
       \<and> (\<forall>c grp. get_prop h c ''group'' = Inr grp \<longrightarrow>
            (\<forall>s. grp = Str s \<longrightarrow> coupon_group_id h c = (if s = [] then Undefined else Str s))
          \<and> (\<forall>a i. grp = Ref a \<and> get_prop h grp ''_id'' = Inr i \<and> truthy i
                \<longrightarrow> coupon_group_id h c = i)
          \<and> (\<forall>a i. grp = Ref a \<and> get_prop h grp ''_id'' = Inr i \<and> \<not> truthy i
                \<longrightarrow> coupon_group_id h c = Ref a))
       \<and> ((\<forall>c \<in> set (scanned (array_elems h d)). \<forall>a. get_prop h c ''group'' = Inr (Ref a)
               \<longrightarrow> (\<exists>i. get_prop h (Ref a) ''_id'' = Inr i \<and> truthy i \<and> is_scalar i))
            \<longrightarrow> list_all is_scalar (group_index h' this'))"
proof -
  have G: "group_index h' this' =
      first_occurrences (filter truthy (map (coupon_group_id h) (scanned (array_elems h d))))"
    by (rule processCouponsData_index(1) [OF assms])
  have s: "set (group_index h' this')
           = {x. truthy x \<and> x \<in> coupon_group_id h ` set (scanned (array_elems h d))}"
    unfolding G by (auto simp: set_first_occurrences)
  have sc: "list_all is_scalar (group_index h' this')"
    if "\<forall>c \<in> set (scanned (array_elems h d)). \<forall>a. get_prop h c ''group'' = Inr (Ref a)
               \<longrightarrow> (\<exists>i. get_prop h (Ref a) ''_id'' = Inr i \<and> truthy i \<and> is_scalar i)"
    unfolding list_all_iff s
    using that coupon_group_id_scalar [of _ h] scanned_not_nullish by blast
  show ?thesis using s sc coupon_group_id_cases by blast
qed

text \<open>
  Claim C1 as stated fails: in the example store the first coupon of the list has a group
  object without \<open>_id\<close>, and the ingestion puts a reference to that object into the index.
\<close>

theorem group_index_object_entry:
  "list_payload example_heap (Ref 7) (Ref 6)
   \<and> get_prop example_heap (Ref 3) ''group'' = Inr (Ref 0)
   \<and> heap_at example_heap 0 = Some (Obj [(''name'', Str ''VIP'')])
   \<and> group_index (fst (snd (processCouponsData (Ref 7) example_heap (manager_at 8))))
        (snd (snd (processCouponsData (Ref 7) example_heap (manager_at 8)))) = [Ref 0, Str ''g7'']
   \<and> \<not> list_all is_scalar
        (group_index (fst (snd (processCouponsData (Ref 7) example_heap (manager_at 8))))
          (snd (snd (processCouponsData (Ref 7) example_heap (manager_at 8)))))"
proof -
  have "index_view (processCouponsData (Ref 7) example_heap (manager_at 8))
       = (None, [Ref 0, Str ''g7''], [Str ''A1'', Str ''B2''], [Ref 3, Ref 4, Ref 5])"
    using index_view_list [OF example_heap_ok example_payload, of "manager_at 8"]
    by (simp add: example_elems example_scan_result del: array_elems.simps)
  then have g: "group_index (fst (snd (processCouponsData (Ref 7) example_heap (manager_at 8))))
        (snd (snd (processCouponsData (Ref 7) example_heap (manager_at 8)))) = [Ref 0, Str ''g7'']"
    by (simp add: index_view_def)
  have a: "get_prop example_heap (Ref 3) ''group'' = Inr (Ref 0)"
    "heap_at example_heap 0 = Some (Obj [(''name'', Str ''VIP'')])"
    by (simp_all add: example_heap_def heap_at_def)
  show ?thesis using g a example_payload by (simp del: get_prop.simps)
qed


lemma example_payload2: "list_payload example_heap (Ref 12) (Ref 11)"
  by (simp add: list_payload_def example_heap_def heap_at_def)

lemma example_elems2: "array_elems example_heap (Ref 11) = [Ref 4, Ref 5]"
  by (simp add: example_heap_def heap_at_def)

lemma example_groups:
  "get_prop example_heap (Ref 4) ''group'' = Inr (Str ''g7'')"
  "get_prop example_heap (Ref 5) ''group'' = Inr (Ref 2)"
  "get_prop example_heap (Ref 2) ''_id'' = Inr (Str ''g7'')"
  by (simp_all add: example_heap_def heap_at_def)

theorem group_index_resolved_witness:
  "heap_ok example_heap \<and> list_payload example_heap (Ref 12) (Ref 11)
   \<and> get_prop example_heap (Ref 4) ''group'' = Inr (Str ''g7'')
   \<and> get_prop example_heap (Ref 5) ''group'' = Inr (Ref 2)
   \<and> get_prop example_heap (Ref 2) ''_id'' = Inr (Str ''g7'')
   \<and> coupon_group_id example_heap (Ref 4) = Str ''g7''
   \<and> coupon_group_id example_heap (Ref 5) = Str ''g7''
   \<and> set (group_index (fst (snd (processCouponsData (Ref 12) example_heap (manager_at 8))))
        (snd (snd (processCouponsData (Ref 12) example_heap (manager_at 8))))) = {Str ''g7''}
   \<and> list_all is_scalar
        (group_index (fst (snd (processCouponsData (Ref 12) example_heap (manager_at 8))))
          (snd (snd (processCouponsData (Ref 12) example_heap (manager_at 8)))))"
proof -
  let ?R = "processCouponsData (Ref 12) example_heap (manager_at 8)"
  have run: "?R = (fst ?R, fst (snd ?R), snd (snd ?R))" by simp
  note T = group_index_resolved [OF example_heap_ok example_payload2 run]
  have sc: "set (scanned (array_elems example_heap (Ref 11))) = {Ref 4, Ref 5}"
    by (simp add: example_elems2 scanned_def nullish_def del: array_elems.simps)
  have e: "coupon_group_id example_heap ` set (scanned (array_elems example_heap (Ref 11)))
      = {Str ''g7''}"
    by (simp add: sc example_group_ids del: array_elems.simps)
  have s0: "set (group_index (fst (snd ?R)) (snd (snd ?R))) = {x. truthy x \<and> x \<in> {Str ''g7''}}"
    using T [THEN conjunct1] unfolding e .
  have s: "set (group_index (fst (snd ?R)) (snd (snd ?R))) = {Str ''g7''}"
    unfolding s0 by auto
  have hyp: "\<forall>c \<in> set (scanned (array_elems example_heap (Ref 11))).
      \<forall>a. get_prop example_heap c ''group'' = Inr (Ref a)
        \<longrightarrow> (\<exists>i. get_prop example_heap (Ref a) ''_id'' = Inr i \<and> truthy i \<and> is_scalar i)"
    unfolding sc by (simp add: example_groups del: get_prop.simps)
  have l: "list_all is_scalar (group_index (fst (snd ?R)) (snd (snd ?R)))"
    by (rule T [THEN conjunct2, THEN conjunct2, THEN mp, OF hyp])
  show ?thesis
    by (intro conjI example_heap_ok example_payload2 example_groups example_group_ids(2,3) s l)
qed

subsection \<open>The rounded product\<close>

lemma round_half_even_ge_floor: "\<lfloor>y\<rfloor> \<le> round_half_even y"
  by (simp add: round_half_even_def Let_def)

lemma round_half_even_le: "round_half_even y \<le> \<lfloor>y\<rfloor> + 1"
  by (simp add: round_half_even_def Let_def)

lemma round_half_even_lower:
  assumes "of_int m \<le> y"
  shows "m \<le> round_half_even y"
proof -
  have "m \<le> \<lfloor>y\<rfloor>" using assms by (simp add: le_floor_iff)
  with round_half_even_ge_floor [of y] show ?thesis by linarith
qed

lemma round_half_even_upper:
  assumes "y < of_int m - 1 / 2"
  shows "round_half_even y < m"
proof -
  have fl: "\<lfloor>y\<rfloor> < m" using assms by (simp add: floor_less_iff)
  show ?thesis
  proof (cases "\<lfloor>y\<rfloor> = m - 1")
    case True
    then have "y - of_int \<lfloor>y\<rfloor> < 1 / 2" using assms by simp
    then have "round_half_even y = \<lfloor>y\<rfloor>" by (simp add: round_half_even_def Let_def)
    with fl show ?thesis by simp
  next
    case False
    with fl have "\<lfloor>y\<rfloor> + 1 < m" by linarith
    with round_half_even_le [of y] show ?thesis by linarith
  qed
qed

lemma doublings_stop: "1074 \<le> k \<or> 2 ^ 52 \<le> x \<Longrightarrow> doublings k x = k"
  by (subst doublings.simps) simp

lemma doublings_step:
  "\<not> (1074 \<le> k \<or> 2 ^ 52 \<le> x) \<Longrightarrow> doublings k x = doublings (Suc k) (2 * x)"
  by (subst doublings.simps) simp

lemma doublings_ge: "k \<le> doublings k x"
proof (induction k x rule: doublings.induct)
  case (1 k x)
  show ?case
  proof (cases "1074 \<le> k \<or> 2 ^ 52 \<le> x")
    case True
    then show ?thesis by (simp only: doublings_stop)
  next
    case False
    from 1 [OF False] have "Suc k \<le> doublings (Suc k) (2 * x)" .
    then show ?thesis unfolding doublings_step [OF False] by simp
  qed
qed

lemma doublings_reaches:
  "2 ^ 52 \<le> x * 2 ^ (doublings k x - k) \<or> 1074 \<le> doublings k x"
proof (induction k x rule: doublings.induct)
  case (1 k x)
  show ?case
  proof (cases "1074 \<le> k \<or> 2 ^ 52 \<le> x")
    case True
    then show ?thesis unfolding doublings_stop [OF True] by auto
  next
    case False
    let ?j = "doublings (Suc k) (2 * x)"
    have ge: "Suc k \<le> ?j" by (rule doublings_ge)
    then have "?j - k = Suc (?j - Suc k)" by simp
    then have e: "x * 2 ^ (?j - k) = 2 * x * 2 ^ (?j - Suc k)" by simp
    from 1 [OF False] show ?thesis unfolding doublings_step [OF False] e .
  qed
qed

lemma round_magnitude_lower:
  assumes x: "x < 2 ^ 53" and m: "of_int m \<le> x"
  shows "of_int m \<le> round_magnitude x"
proof -
  let ?j = "doublings 0 x"
  have "of_int (m * 2 ^ ?j) \<le> x * 2 ^ ?j" using m by simp
  then have "m * 2 ^ ?j \<le> round_half_even (x * 2 ^ ?j)" by (rule round_half_even_lower)
  then have "(of_int (m * 2 ^ ?j) :: rat) \<le> of_int (round_half_even (x * 2 ^ ?j))"
    by (simp only: of_int_le_iff)
  then have "(of_int m :: rat) * 2 ^ ?j \<le> of_int (round_half_even (x * 2 ^ ?j))" by simp
  then have "(of_int m :: rat) \<le> of_int (round_half_even (x * 2 ^ ?j)) / 2 ^ ?j"
    by (simp add: pos_le_divide_eq)
  then show ?thesis using x by (simp add: round_magnitude_def Let_def)
qed

lemma round_magnitude_upper:
  assumes k: "0 < k" and x: "x \<le> of_int k * (1 - 1 / 2 ^ 53)" and b: "x < 2 ^ 53"
  shows "round_magnitude x < of_int k"
proof -
  let ?j = "doublings 0 x"
  have xk: "x < of_int k"
  proof -
    have "of_int k * (1 - 1 / 2 ^ 53) < (of_int k :: rat) * 1"
      using k by (intro mult_strict_left_mono) simp_all
    with x show ?thesis by simp
  qed
  have big: "(2 :: rat) ^ 52 < of_int k * 2 ^ ?j"
  proof -
    from doublings_reaches [of x 0] consider "2 ^ 52 \<le> x * 2 ^ ?j" | "1074 \<le> ?j" by auto
    then show ?thesis
    proof cases
      case 1
      have "x * 2 ^ ?j < of_int k * 2 ^ ?j"
        using xk by (intro mult_strict_right_mono) simp_all
      with 1 show ?thesis by (rule le_less_trans)
    next
      case 2
      have "(2 :: rat) ^ 52 < 2 ^ 1074" by simp
      also have "\<dots> \<le> 2 ^ ?j" using 2 by (intro power_increasing) simp_all
      also have "\<dots> \<le> of_int k * 2 ^ ?j" using k by simp
      finally show ?thesis .
    qed
  qed
  have "x * 2 ^ ?j \<le> of_int k * (1 - 1 / 2 ^ 53) * 2 ^ ?j" using x by simp
  also have "\<dots> = of_int k * 2 ^ ?j - (of_int k * 2 ^ ?j) / 2 ^ 53" by (simp add: algebra_simps)
  also have "\<dots> < of_int k * 2 ^ ?j - 1 / 2"
  proof -
    have "(1 :: rat) / 2 = 2 ^ 52 / 2 ^ 53" by simp
    also have "\<dots> < (of_int k * 2 ^ ?j) / 2 ^ 53" using big by (simp only: divide_strict_right_mono zero_less_power zero_less_numeral)
    finally show ?thesis by simp
  qed
  finally have "x * 2 ^ ?j < of_int (k * 2 ^ ?j) - 1 / 2" by simp
  then have "round_half_even (x * 2 ^ ?j) < k * 2 ^ ?j" by (rule round_half_even_upper)
  then have "(of_int (round_half_even (x * 2 ^ ?j)) :: rat) < of_int (k * 2 ^ ?j)"
    by (simp only: of_int_less_iff)
  then have "(of_int (round_half_even (x * 2 ^ ?j)) :: rat) < of_int k * 2 ^ ?j" by simp
  then have "(of_int (round_half_even (x * 2 ^ ?j)) :: rat) / 2 ^ ?j < of_int k"
    by (simp add: pos_divide_less_eq)
  then show ?thesis using b by (simp add: round_magnitude_def Let_def)
qed

lemma round_double_nonneg: "0 \<le> x \<Longrightarrow> round_double x = round_magnitude x"
  by (simp add: round_double_def)

lemma product_below:
  fixes r :: rat
  assumes "0 \<le> r" "r \<le> 1" "n < 2 ^ 32"
  shows "r * of_nat n < 2 ^ 53"
proof -
  have "r * of_nat n \<le> 1 * of_nat n" by (intro mult_right_mono) (use assms in simp_all)
  also have "\<dots> < of_nat (2 ^ 32)" using assms(3) by (simp only: mult_1 of_nat_less_iff)
  also have "\<dots> \<le> (2 :: rat) ^ 53" by simp
  finally show ?thesis .
qed

lemma randomIndex_ge:
  assumes r: "0 \<le> r" "r \<le> 1" and n: "n < 2 ^ 32" and i: "of_nat i \<le> r * of_nat n"
  shows "i \<le> randomIndex r n"
proof -
  have x0: "0 \<le> r * of_nat n" using r by simp
  have "of_int (int i) \<le> r * of_nat n" using i by simp
  then have "of_int (int i) \<le> round_magnitude (r * of_nat n)"
    by (rule round_magnitude_lower [OF product_below [OF r n]])
  then have "int i \<le> \<lfloor>round_double (r * of_nat n)\<rfloor>"
    by (simp add: round_double_nonneg [OF x0] le_floor_iff)
  then show ?thesis unfolding randomIndex_def by linarith
qed

lemma randomIndex_less:
  assumes r: "0 \<le> r" "r \<le> 1" and n: "n < 2 ^ 32" and k: "0 < k"
    and x: "r * of_nat n \<le> of_nat k * (1 - 1 / 2 ^ 53)"
  shows "randomIndex r n < k"
proof -
  have x0: "0 \<le> r * of_nat n" using r by simp
  have "r * of_nat n \<le> of_int (int k) * (1 - 1 / 2 ^ 53)" using x by simp
  then have "round_magnitude (r * of_nat n) < of_int (int k)"
    by (intro round_magnitude_upper [OF _ _ product_below [OF r n]]) (use k in simp_all)
  then have "\<lfloor>round_double (r * of_nat n)\<rfloor> < int k"
    by (simp add: round_double_nonneg [OF x0] floor_less_iff)
  with k show ?thesis unfolding randomIndex_def by linarith
qed

lemma randomIndex_in_range:
  assumes "0 \<le> r" "r \<le> 1 - 1 / 2 ^ 53" "0 < n" "n < 2 ^ 32"
  shows "randomIndex r n < n"
proof -
  have r1: "r \<le> 1" using assms(2) by simp
  have "r * of_nat n \<le> (1 - 1 / 2 ^ 53) * of_nat n"
    using assms(2) by (intro mult_right_mono) simp_all
  then have "r * of_nat n \<le> of_nat n * (1 - 1 / 2 ^ 53)" by (simp only: mult.commute)
  then show ?thesis by (rule randomIndex_less [OF assms(1) r1 assms(4,3)])
qed

lemma randomIndex_chosen:
  assumes r: "0 \<le> r" "r \<le> 1" and n: "0 < n" "n < 2 ^ 32"
    and lo: "of_nat i / of_nat n \<le> r"
    and hi: "r \<le> of_nat (Suc i) / of_nat n * (1 - 1 / 2 ^ 53)"
  shows "randomIndex r n = i"
proof -
  have "of_nat i \<le> r * of_nat n" using lo n(1) by (simp add: pos_divide_le_eq)
  then have a: "i \<le> randomIndex r n" by (rule randomIndex_ge [OF r n(2)])
  have "r * of_nat n \<le> of_nat (Suc i) / of_nat n * (1 - 1 / 2 ^ 53) * of_nat n"
    using hi by (intro mult_right_mono) simp_all
  also have "\<dots> = of_nat (Suc i) * (1 - 1 / 2 ^ 53)" using n(1) by simp
  finally have b: "randomIndex r n < Suc i" by (intro randomIndex_less [OF r n(2)]) simp_all
  from a b show ?thesis by simp
qed

lemma randomIndex_only:
  assumes r: "0 \<le> r" "r \<le> 1" and n: "0 < n" "n < 2 ^ 32"
    and c: "randomIndex r n = i"
  shows "of_nat i / of_nat n * (1 - 1 / 2 ^ 53) \<le> r \<and> r < of_nat (Suc i) / of_nat n"
proof (intro conjI)
  show "r < of_nat (Suc i) / of_nat n"
  proof (rule ccontr)
    assume "\<not> r < of_nat (Suc i) / of_nat n"
    then have "of_nat (Suc i) / of_nat n \<le> r" by (simp only: not_less)
    moreover have "(0 :: rat) < of_nat n" using n(1) by simp
    ultimately have "of_nat (Suc i) \<le> r * of_nat n" by (simp only: pos_divide_le_eq)
    then have "Suc i \<le> randomIndex r n" by (rule randomIndex_ge [OF r n(2)])
    with c show False by simp
  qed
  show "of_nat i / of_nat n * (1 - 1 / 2 ^ 53) \<le> r"
  proof (rule ccontr)
    assume a: "\<not> of_nat i / of_nat n * (1 - 1 / 2 ^ 53) \<le> r"
    have i: "0 < i"
    proof (rule ccontr)
      assume "\<not> 0 < i"
      with a r(1) show False by simp
    qed
    from a have "r * of_nat n \<le> of_nat i / of_nat n * (1 - 1 / 2 ^ 53) * of_nat n"
      by (intro mult_right_mono) simp_all
    also have "\<dots> = of_nat i * (1 - 1 / 2 ^ 53)" using n(1) by simp
    finally have "randomIndex r n < i" by (intro randomIndex_less [OF r n(2) i])
    with c show False by simp
  qed
qed

lemma doublings_eq:
  assumes "k \<le> j" "j \<le> 1074" "0 \<le> x" "k < j \<longrightarrow> x * 2 ^ (j - k - 1) < 2 ^ 52"
    and "2 ^ 52 \<le> x * 2 ^ (j - k)"
  shows "doublings k x = j"
  using assms
proof (induction "j - k" arbitrary: k x)
  case 0
  then have "j = k" by simp
  with 0 show ?case by (simp add: doublings_stop)
next
  case (Suc d)
  then have kj: "k < j" by simp
  have "x * 2 ^ 0 \<le> x * 2 ^ (j - k - 1)"
    using Suc.prems(3) by (intro mult_left_mono power_increasing) simp_all
  with Suc.prems(4) kj have x: "x < 2 ^ 52" by simp
  have k: "\<not> 1074 \<le> k" using kj Suc.prems(2) by simp
  have e: "j - k = Suc (j - Suc k)" using kj by simp
  have e1: "j - k - 1 = j - Suc k" by simp
  have "doublings (Suc k) (2 * x) = j"
  proof (rule Suc.hyps(1))
    show "d = j - Suc k" using Suc.hyps(2) by simp
    show "Suc k \<le> j" using kj by simp
    show "j \<le> 1074" by (rule Suc.prems(2))
    show "0 \<le> 2 * x" using Suc.prems(3) by simp
    show "2 ^ 52 \<le> 2 * x * 2 ^ (j - Suc k)" using Suc.prems(5) unfolding e by simp
    show "Suc k < j \<longrightarrow> 2 * x * 2 ^ (j - Suc k - 1) < 2 ^ 52"
    proof
      assume "Suc k < j"
      then have s: "j - Suc k = Suc (j - Suc k - 1)" by simp
      have "x * 2 ^ (j - Suc k) = x * 2 ^ Suc (j - Suc k - 1)" by (subst s) (rule refl)
      also have "\<dots> = 2 * x * 2 ^ (j - Suc k - 1)" by (simp only: power_Suc mult_ac)
      finally have "2 * x * 2 ^ (j - Suc k - 1) = x * 2 ^ (j - k - 1)"
        unfolding e1 by (rule sym)
      moreover have "x * 2 ^ (j - k - 1) < 2 ^ 52" using Suc.prems(4) kj by blast
      ultimately show "2 * x * 2 ^ (j - Suc k - 1) < 2 ^ 52" by (simp only:)
    qed
  qed
  then show ?case using x k by (simp add: doublings_step)
qed

lemma binary64_below_one:
  assumes d: "binary64 r" and r: "0 \<le> r" "r < 1"
  shows "r \<le> 1 - 1 / 2 ^ 53"
proof (rule ccontr)
  assume "\<not> r \<le> 1 - 1 / 2 ^ 53"
  then have lo: "1 - 1 / 2 ^ 53 < r" by simp
  have j: "doublings 0 r = 53"
  proof (rule doublings_eq)
    show "0 < (53::nat) \<longrightarrow> r * 2 ^ (53 - 0 - 1) < 2 ^ 52" using r(2) by simp
    show "2 ^ 52 \<le> r * 2 ^ (53 - 0)" using lo by simp
  qed (use r in simp_all)
  define m where "m = round_half_even (r * 2 ^ 53)"
  have "round_double r = of_int m / 2 ^ 53"
    using r j by (simp add: round_double_def round_magnitude_def Let_def m_def)
  with d have "r = of_int m / 2 ^ 53" by (simp add: binary64_def)
  then have m: "r * 2 ^ 53 = of_int m" by simp
  have "of_int (2 ^ 53 - 1) < r * 2 ^ 53" using lo by simp
  then have a: "2 ^ 53 - 1 < m" unfolding m by (simp only: of_int_less_iff)
  have "r * 2 ^ 53 < of_int (2 ^ 53)" using r(2) by simp
  then have b: "m < 2 ^ 53" unfolding m by (simp only: of_int_less_iff)
  from a b show False by simp
qed

text \<open>
  Claim C9.  The entries of the group-identifier index are truthy: the index is empty after
  the constructor and \<open>clear\<close>, and an ingestion keeps its entries truthy (the lemmas
  \<open>constructor_index_empty\<close> and \<open>ingest_keeps_truthy\<close> below).  On such an index, of
  fewer than \<open>2^32\<close> entries as every array, and for every double \<open>0 \<le> r < 1\<close> that
  \<open>Math.random()\<close> returns, \<open>getRandomGroupId\<close> returns null if and only if the index is
  empty, and for a non-empty index of \<open>n\<close> entries the entry at \<open>randomIndex\<close>, the floor of
  the rounded product \<open>r * n\<close>, which is an entry of the index.  The choice is uniform up to
  the rounding of the product: the index \<open>i\<close> is chosen for every \<open>r\<close> from \<open>i / n\<close> to
  \<open>(i + 1) / n * (1 - 2^-53)\<close>, and only for \<open>r\<close> from \<open>i / n * (1 - 2^-53)\<close> and below
  \<open>(i + 1) / n\<close>.
\<close>

theorem getRandomGroupId_null_iff_empty:
  assumes "binary64 r" and "0 \<le> r" and "r < 1"
    and "list_all truthy (group_index h this)" and "length (group_index h this) < 2 ^ 32"
  shows "(getRandomGroupId r h this = Null \<longleftrightarrow> group_index h this = [])
       \<and> (group_index h this \<noteq> [] \<longrightarrow>
            getRandomGroupId r h this \<in> set (group_index h this)
          \<and> randomIndex r (length (group_index h this)) < length (group_index h this)
          \<and> getRandomGroupId r h this
              = group_index h this ! randomIndex r (length (group_index h this)))
       \<and> (\<forall>i < length (group_index h this).
            of_nat i / of_nat (length (group_index h this)) \<le> r
            \<and> r \<le> of_nat (Suc i) / of_nat (length (group_index h this)) * (1 - 1 / 2 ^ 53)
            \<longrightarrow> randomIndex r (length (group_index h this)) = i)
       \<and> (\<forall>i < length (group_index h this).
            randomIndex r (length (group_index h this)) = i
            \<longrightarrow> of_nat i / of_nat (length (group_index h this)) * (1 - 1 / 2 ^ 53) \<le> r
              \<and> r < of_nat (Suc i) / of_nat (length (group_index h this)))"
proof (cases "group_index h this = []")
  case True
  then show ?thesis by (simp add: getRandomGroupId_def group_index_def del: array_elems.simps)
next
  case False
  let ?xs = "group_index h this"
  let ?k = "randomIndex r (length ?xs)"
  have n: "0 < length ?xs" using False by simp
  have r1: "r \<le> 1" using assms(3) by simp
  have k: "?k < length ?xs"
    by (rule randomIndex_in_range [OF assms(2) binary64_below_one [OF assms(1,2,3)] n assms(5)])
  have g: "getRandomGroupId r h this = ?xs ! ?k"
    using False k by (simp add: getRandomGroupId_def group_index_def array_get_def Let_def
        del: array_elems.simps)
  have m: "?xs ! ?k \<in> set ?xs" using k by simp
  with assms(4) have "truthy (?xs ! ?k)" by (simp add: list_all_iff)
  then have nn: "?xs ! ?k \<noteq> Null" by auto
  have u: "\<forall>i < length ?xs.
      of_nat i / of_nat (length ?xs) \<le> r
      \<and> r \<le> of_nat (Suc i) / of_nat (length ?xs) * (1 - 1 / 2 ^ 53) \<longrightarrow> ?k = i"
    using randomIndex_chosen [OF assms(2) r1 n assms(5)] by blast
  have v: "\<forall>i < length ?xs. ?k = i
      \<longrightarrow> of_nat i / of_nat (length ?xs) * (1 - 1 / 2 ^ 53) \<le> r
        \<and> r < of_nat (Suc i) / of_nat (length ?xs)"
    using randomIndex_only [OF assms(2) r1 n assms(5)] by blast
  have 1: "getRandomGroupId r h this = Null \<longleftrightarrow> ?xs = []" using False g nn by simp
  have 2: "?xs \<noteq> [] \<longrightarrow> getRandomGroupId r h this \<in> set ?xs \<and> ?k < length ?xs
      \<and> getRandomGroupId r h this = ?xs ! ?k" using g m k by simp
  show ?thesis by (intro conjI 1 2 u v)
qed

lemma example_manager_index: "group_index example_heap (manager_at 8) = [Str ''g0'', Str ''g7'']"
  by (simp add: group_index_def manager_at_def example_heap_def heap_at_def)

lemma three_quarters: "binary64 (3 / 4)" "randomIndex (3 / 4) 2 = 1"
  by code_simp+

theorem getRandomGroupId_witness:
  "binary64 (3 / 4) \<and> (0::rat) \<le> 3 / 4 \<and> (3 / 4 :: rat) < 1
   \<and> group_index example_heap (manager_at 8) = [Str ''g0'', Str ''g7'']
   \<and> list_all truthy (group_index example_heap (manager_at 8))
   \<and> length (group_index example_heap (manager_at 8)) < 2 ^ 32
   \<and> randomIndex (3 / 4) 2 = 1
   \<and> getRandomGroupId (3 / 4) example_heap (manager_at 8) = Str ''g7''
   \<and> getRandomGroupId (3 / 4) example_heap (manager_at 8) \<noteq> Null"
proof -
  have r: "(0::rat) \<le> 3 / 4" "(3 / 4 :: rat) < 1" by simp_all
  have t: "list_all truthy (group_index example_heap (manager_at 8))"
    by (simp add: example_manager_index)
  have len: "length (group_index example_heap (manager_at 8)) = 2"
    by (simp add: example_manager_index)
  have l: "length (group_index example_heap (manager_at 8)) < 2 ^ 32"
    unfolding len by simp
  note T = getRandomGroupId_null_iff_empty [OF three_quarters(1) r t l]
  have g: "getRandomGroupId (3 / 4) example_heap (manager_at 8) = Str ''g7''"
    using T [THEN conjunct2, THEN conjunct1] unfolding len three_quarters(2)
    by (simp add: example_manager_index)
  have nn: "getRandomGroupId (3 / 4) example_heap (manager_at 8) \<noteq> Null"
    using T [THEN conjunct1] by (simp add: example_manager_index)
  show ?thesis
    by (intro conjI three_quarters r t l g nn example_manager_index)
qed

text \<open>
  The choice is not exactly uniform.  The double \<open>6004799503160661 / 2^54\<close> (written
  \<open>0.3333333333333333\<close>) is below one third, and of three entries the second one is chosen:
  the product \<open>1 - 2^-54\<close> lies half way between two doubles and is rounded to \<open>1\<close>.
\<close>

lemma one_third_below:
  "binary64 (6004799503160661 / 2 ^ 54)" "randomIndex (6004799503160661 / 2 ^ 54) 3 = 1"
  by code_simp+

theorem random_choice_rounds_up:
  "binary64 (6004799503160661 / 2 ^ 54) \<and> (0 :: rat) \<le> 6004799503160661 / 2 ^ 54
   \<and> (6004799503160661 / 2 ^ 54 :: rat) < 1 / 3
   \<and> group_index three_groups_heap (manager_at 0) = [Str ''g1'', Str ''g2'', Str ''g3'']
   \<and> getRandomGroupId (6004799503160661 / 2 ^ 54) three_groups_heap (manager_at 0) = Str ''g2''"
proof -
  have i: "group_index three_groups_heap (manager_at 0) = [Str ''g1'', Str ''g2'', Str ''g3'']"
    by (simp add: group_index_def manager_at_def three_groups_heap_def heap_at_def)
  have e: "array_elems three_groups_heap (Ref (groupIds (manager_at 0)))
      = [Str ''g1'', Str ''g2'', Str ''g3'']"
    using i unfolding group_index_def .
  have len: "length [Str ''g1'', Str ''g2'', Str ''g3''] = 3" by simp
  have g: "getRandomGroupId (6004799503160661 / 2 ^ 54) three_groups_heap (manager_at 0)
      = Str ''g2''"
    unfolding getRandomGroupId_def Let_def e len one_third_below(2)
    by (simp add: array_get_def)
  show ?thesis by (intro conjI one_third_below(1) i g) simp_all
qed

lemma not_list_payload_noop:
  assumes "\<And>d. \<not> list_payload h resp d"
  shows "processCouponsData resp h this = (None, h, this)"
proof (cases "truthy resp")
  case False
  then show ?thesis by (simp add: processCouponsData_def)
next
  case True
  then have "\<not> nullish resp" by (auto simp: nullish_def)
  then obtain d where d: "get_prop h resp ''data'' = Inr d"
    using get_prop_not_nullish by blast
  with assms [of d] True have "\<not> isArray h d" by (simp add: list_payload_def)
  with d show ?thesis by (simp add: processCouponsData_def)
qed

lemma constructor_index_empty:
  "group_index (snd (constructor h)) (fst (constructor h)) = []"
  "group_index (snd (clear h this)) (fst (clear h this)) = []"
  by (simp_all add: constructor_def clear_def new_arrays_eq group_index_def manager_at_def
      array_elems_ext del: array_elems.simps)

lemma ingest_keeps_truthy:
  assumes ok: "heap_ok h" and inv: "list_all truthy (group_index h this)"
    and run: "processCouponsData resp h this = (r, h', this')"
  shows "list_all truthy (group_index h' this')"
proof (cases "\<exists>d. list_payload h resp d")
  case True
  then obtain d where "list_payload h resp d" ..
  from processCouponsData_index(1) [OF ok this run] show ?thesis
    by (simp add: list_all_truthy_first)
next
  case False
  then have "processCouponsData resp h this = (None, h, this)"
    by (intro not_list_payload_noop) blast
  with run inv show ?thesis by simp
qed


lemma array_elems_append_old:
  "a < length h \<Longrightarrow> array_elems (h @ ext) (Ref a) = array_elems h (Ref a)"
  by (simp add: heap_at_append_old)

lemma isArray_below: "isArray h (Ref a) \<Longrightarrow> a < length h"
  by (auto simp: heap_at_def split: if_splits)

lemma isArray_append_old: "a < length h \<Longrightarrow> isArray (h @ ext) (Ref a) = isArray h (Ref a)"
  by (simp add: heap_at_append_old)

lemma mutate_new: "mutate_array (h @ [Arr xs]) (length h) ys = h @ [Arr ys]"
  by (simp add: mutate_array_def heap_at_def)

lemma copy_mutated:
  assumes acc: "acc h this = alloc h (Arr xs)"
  shows "returned acc h this = xs" and "after_mutation acc h this ys = h @ [Arr ys]"
    and "fst (acc h this) = length h"
  by (simp_all add: returned_def after_mutation_def acc alloc_def mutate_new heap_at_def)

lemma accessor_alloc:
  assumes "acc \<in> {getAllGroupIds, getAllCouponCodes, getAllCoupons}"
  shows "\<exists>xs. acc h this = alloc h (Arr xs)"
  using assms by (auto simp: getAllGroupIds_def getAllCouponCodes_def getAllCoupons_def)

lemma returned_accessors:
  "returned getAllGroupIds h this = group_index h this"
  "returned getAllCouponCodes h this = code_index h this"
  "returned getAllCoupons h this = coupon_list h this"
  by (simp_all add: returned_def getAllGroupIds_def getAllCouponCodes_def getAllCoupons_def
      alloc_def group_index_def code_index_def coupon_list_def heap_at_def)

lemma indexes_append_old:
  assumes "manager_ok h this"
  shows "group_index (h @ ext) this = group_index h this"
    and "code_index (h @ ext) this = code_index h this"
    and "coupon_list (h @ ext) this = coupon_list h this"
    and "manager_ok (h @ ext) this"
  using assms
  by (simp_all add: manager_ok_def group_index_def code_index_def coupon_list_def
      array_elems_append_old isArray_append_old isArray_below del: array_elems.simps isArray.simps)

text \<open>
  Claim C10.  Each of \<open>getAllGroupIds\<close>, \<open>getAllCouponCodes\<close> and \<open>getAllCoupons\<close>
  returns a new array with the elements of its index.  For every manager whose fields
  refer to arrays of the store, every accessor \<open>acc\<close> of the three and every mutation of
  the array it returned (to any elements \<open>ys\<close>): the returned array is none of the
  manager's, the three indexes are unchanged, a later call of each accessor returns what it
  would have returned before, and \<open>getStats\<close> reports the same counts.
\<close>

theorem accessors_return_fresh_copies:
  assumes ok: "manager_ok h this"
    and acc: "acc \<in> {getAllGroupIds, getAllCouponCodes, getAllCoupons}"
  shows "returned getAllGroupIds h this = group_index h this
       \<and> returned getAllCouponCodes h this = code_index h this
       \<and> returned getAllCoupons h this = coupon_list h this
       \<and> fst (acc h this) \<notin> {groupIds this, couponCodes this, coupons this}
       \<and> array_elems (after_mutation acc h this ys) (Ref (fst (acc h this))) = ys
       \<and> group_index (after_mutation acc h this ys) this = group_index h this
       \<and> code_index (after_mutation acc h this ys) this = code_index h this
       \<and> coupon_list (after_mutation acc h this ys) this = coupon_list h this
       \<and> returned getAllGroupIds (after_mutation acc h this ys) this = group_index h this
       \<and> returned getAllCouponCodes (after_mutation acc h this ys) this = code_index h this
       \<and> returned getAllCoupons (after_mutation acc h this ys) this = coupon_list h this
       \<and> getStats (after_mutation acc h this ys) this = getStats h this"
proof -
  obtain xs where a: "acc h this = alloc h (Arr xs)" using accessor_alloc [OF acc] by blast
  note c = copy_mutated [of acc h this xs, OF a]
  have fresh: "fst (acc h this) \<notin> {groupIds this, couponCodes this, coupons this}"
    using ok isArray_below unfolding c(3) manager_ok_def by fastforce
  have elems: "array_elems (after_mutation acc h this ys) (Ref (fst (acc h this))) = ys"
    unfolding c by (simp add: heap_at_def)
  note i = indexes_append_old [OF ok, of "[Arr ys]"]
  have stats: "getStats (after_mutation acc h this ys) this = getStats h this"
    unfolding c using i(1-3)
    by (simp add: getStats_def group_index_def code_index_def coupon_list_def
        del: array_elems.simps)
  show ?thesis
    using fresh elems stats i(1-3) unfolding c(2)
    by (simp add: returned_accessors del: array_elems.simps)
qed


lemma example_manager_ok: "manager_ok example_heap (manager_at 8)"
  by (simp add: manager_ok_def manager_at_def example_heap_def heap_at_def)

lemma example_stats:
  "getStats example_heap (manager_at 8)
     = \<lparr>totalCoupons = 1, uniqueGroupIds = 2, uniqueCouponCodes = 1\<rparr>"
  by (simp add: getStats_def manager_at_def example_heap_def heap_at_def)

theorem accessors_fresh_witness:
  "manager_ok example_heap (manager_at 8)
   \<and> returned getAllGroupIds example_heap (manager_at 8) = [Str ''g0'', Str ''g7'']
   \<and> fst (getAllGroupIds example_heap (manager_at 8)) \<noteq> groupIds (manager_at 8)
   \<and> array_elems (after_mutation getAllGroupIds example_heap (manager_at 8) [Str ''x''])
        (Ref (fst (getAllGroupIds example_heap (manager_at 8)))) = [Str ''x'']
   \<and> group_index (after_mutation getAllGroupIds example_heap (manager_at 8) [Str ''x''])
        (manager_at 8) = [Str ''g0'', Str ''g7'']
   \<and> returned getAllGroupIds
        (after_mutation getAllGroupIds example_heap (manager_at 8) [Str ''x'']) (manager_at 8)
       = [Str ''g0'', Str ''g7'']
   \<and> getStats (after_mutation getAllGroupIds example_heap (manager_at 8) [Str ''x''])
        (manager_at 8) = \<lparr>totalCoupons = 1, uniqueGroupIds = 2, uniqueCouponCodes = 1\<rparr>"
proof -
  have m: "getAllGroupIds \<in> {getAllGroupIds, getAllCouponCodes, getAllCoupons}" by simp
  note T = accessors_return_fresh_copies [OF example_manager_ok m, of "[Str ''x'']"]
  show ?thesis
    using T unfolding example_manager_index example_stats
    by (simp add: example_manager_ok del: array_elems.simps)
qed

section \<open>The claim on the HTTP API client\<close>


















section \<open>The claim on the cleanup of fixtures\<close>
























section \<open>The claims on the test scenarios\<close>







































end
